theory Spec2Isabelle
  imports Complex_Main "HOL-Library.Sublist" "HOL-Library.Product_Lexorder" "HOL-Library.Multiset"
begin

section \<open>Python strings\<close>

text \<open>
  A Python \<open>str\<close> is a sequence of code points and \<open>len\<close> counts code points. The model
  takes the code points 0..255 (Latin-1), one \<^typ>\<open>char\<close> each, so that \<^const>\<open>length\<close> is
  \<open>len\<close>. On this range \<open>str.isspace\<close> holds of the twelve code points below, and
  \<open>str.lower\<close> moves A..Z and the capital letters U+00C0..U+00DE (the multiplication sign
  U+00D7 apart) up by 32 and leaves every other code point alone.
\<close>

definition isspace :: "char \<Rightarrow> bool" where
  "isspace c = (of_char c \<in> {9, 10, 11, 12, 13, 28, 29, 30, 31, 32, 133, 160 :: nat})"

definition lower_char :: "char \<Rightarrow> char" where
  "lower_char c =
     (let n = of_char c :: nat
      in if (65 \<le> n \<and> n \<le> 90) \<or> (192 \<le> n \<and> n \<le> 222 \<and> n \<noteq> 215)
         then char_of (n + 32) else c)"

definition lower :: "string \<Rightarrow> string" where
  "lower s = map lower_char s"

definition strip :: "string \<Rightarrow> string" where
  "strip s = rev (dropWhile isspace (rev (dropWhile isspace s)))"

section \<open>The similarity ratio of \<open>difflib.SequenceMatcher\<close>\<close>

text \<open>
  \<open>is_duplicate\<close> calls \<open>difflib.SequenceMatcher(None, text, existing).ratio()\<close> of the
  Python standard library. The functions below follow \<open>difflib.py\<close> for \<open>isjunk = None\<close>
  and \<open>autojunk = True\<close>, the values this call passes. A match is the triple
  \<open>Match(a, b, size)\<close>; indices are natural numbers, and every subtraction of the source
  is written so that it cannot truncate.
\<close>

type_synonym match = "nat \<times> nat \<times> nat"

text \<open>
  \<open>__chain_b\<close>: \<open>b2j\<close> maps an element of \<open>b\<close> to the ascending list of its positions.
  With no junk function \<open>bjunk\<close> stays empty. When \<open>b\<close> has at least 200 elements, every
  element with more than \<open>n // 100 + 1\<close> positions is popular and deleted from \<open>b2j\<close>;
  \<open>b2j.get(elt, nothing)\<close> then reads the empty list.
\<close>

definition indices :: "'a list \<Rightarrow> 'a \<Rightarrow> nat list" where
  "indices b elt = filter (\<lambda>j. b ! j = elt) [0..<length b]"

definition popular :: "'a list \<Rightarrow> 'a \<Rightarrow> bool" where
  "popular b elt = (200 \<le> length b \<and> length b div 100 + 1 < length (indices b elt))"

definition b2j :: "'a list \<Rightarrow> 'a \<Rightarrow> nat list" where
  "b2j b elt = (if popular b elt then [] else indices b elt)"

definition isbjunk :: "'a \<Rightarrow> bool" where
  "isbjunk elt = False"

text \<open>
  \<open>j2lenget(j-1, 0)\<close>: the dictionary \<open>j2len\<close> has no key \<open>-1\<close>, so the lookup for
  \<open>j = 0\<close> is the default.
\<close>

definition j2lenget :: "(nat \<rightharpoonup> nat) \<Rightarrow> nat \<Rightarrow> nat" where
  "j2lenget j2len j =
     (case j of 0 \<Rightarrow> 0 | Suc j' \<Rightarrow> (case j2len j' of None \<Rightarrow> 0 | Some k \<Rightarrow> k))"

text \<open>
  The inner loop of \<open>find_longest_match\<close>, over the positions \<open>j\<close> of \<open>a[i]\<close> in \<open>b\<close>:
  \<open>continue\<close> below \<open>blo\<close>, \<open>break\<close> from \<open>bhi\<close> on, else record the run length \<open>k\<close>
  in \<open>newj2len\<close> and keep the first longest run. \<open>i-k+1\<close> is \<open>Suc i - k\<close>.
\<close>

fun inner_loop ::
  "nat \<Rightarrow> nat \<Rightarrow> nat \<Rightarrow> (nat \<rightharpoonup> nat) \<Rightarrow> nat list \<Rightarrow> match \<times> (nat \<rightharpoonup> nat) \<Rightarrow> match \<times> (nat \<rightharpoonup> nat)"
where
  "inner_loop i blo bhi j2len [] st = st"
| "inner_loop i blo bhi j2len (j # js) (best, newj2len) =
     (if j < blo then inner_loop i blo bhi j2len js (best, newj2len)
      else if bhi \<le> j then (best, newj2len)
      else
        let k = j2lenget j2len j + 1
        in inner_loop i blo bhi j2len js
             (if snd (snd best) < k then (Suc i - k, Suc j - k, k) else best,
              newj2len(j \<mapsto> k)))"

text \<open>The outer loop, \<open>for i in range(alo, ahi)\<close>; each row starts a fresh \<open>newj2len\<close>.\<close>

fun outer_loop ::
  "'a list \<Rightarrow> 'a list \<Rightarrow> nat \<Rightarrow> nat \<Rightarrow> nat list \<Rightarrow> match \<times> (nat \<rightharpoonup> nat) \<Rightarrow> match \<times> (nat \<rightharpoonup> nat)"
where
  "outer_loop a b blo bhi [] st = st"
| "outer_loop a b blo bhi (i # rest) (best, j2len) =
     outer_loop a b blo bhi rest (inner_loop i blo bhi j2len (b2j b (a ! i)) (best, Map.empty))"

text \<open>
  The four \<open>while\<close> loops that extend the best match: to the left and to the right over
  elements that are not junk (\<open>junk = False\<close>), then over junk (\<open>junk = True\<close>).
\<close>

function extend_left :: "'a list \<Rightarrow> 'a list \<Rightarrow> nat \<Rightarrow> nat \<Rightarrow> bool \<Rightarrow> match \<Rightarrow> match" where
  "extend_left a b alo blo junk (besti, bestj, bestsize) =
     (if alo < besti \<and> blo < bestj \<and> isbjunk (b ! (bestj - 1)) = junk \<and>
         a ! (besti - 1) = b ! (bestj - 1)
      then extend_left a b alo blo junk (besti - 1, bestj - 1, bestsize + 1)
      else (besti, bestj, bestsize))"
  by pat_completeness auto
termination
  by (relation "measure (\<lambda>(a, b, alo, blo, junk, besti, bestj, bestsize). besti)") auto

function extend_right :: "'a list \<Rightarrow> 'a list \<Rightarrow> nat \<Rightarrow> nat \<Rightarrow> bool \<Rightarrow> match \<Rightarrow> match" where
  "extend_right a b ahi bhi junk (besti, bestj, bestsize) =
     (if besti + bestsize < ahi \<and> bestj + bestsize < bhi \<and>
         isbjunk (b ! (bestj + bestsize)) = junk \<and>
         a ! (besti + bestsize) = b ! (bestj + bestsize)
      then extend_right a b ahi bhi junk (besti, bestj, bestsize + 1)
      else (besti, bestj, bestsize))"
  by pat_completeness auto
termination
  by (relation "measure (\<lambda>(a, b, ahi, bhi, junk, besti, bestj, bestsize). ahi - (besti + bestsize))") auto

definition find_longest_match :: "'a list \<Rightarrow> 'a list \<Rightarrow> nat \<Rightarrow> nat \<Rightarrow> nat \<Rightarrow> nat \<Rightarrow> match" where
  "find_longest_match a b alo ahi blo bhi =
     (let best = fst (outer_loop a b blo bhi [alo..<ahi] ((alo, blo, 0), Map.empty));
          best = extend_left a b alo blo False best;
          best = extend_right a b ahi bhi False best;
          best = extend_left a b alo blo True best;
          best = extend_right a b ahi bhi True best
      in best)"

text \<open>
  The equations of the two \<open>while\<close> loops are unfolded by hand; as rewrite rules they
  would unfold for ever.
\<close>

declare extend_left.simps [simp del] extend_right.simps [simp del]

subsection \<open>The best match lies inside its window\<close>

text \<open>
  \<open>get_matching_blocks\<close> loops while its queue is not empty, and every window it appends
  to the queue is cut out of the one it popped. That this ends rests on where
  \<open>find_longest_match\<close> puts its result: a match of positive size lies inside the window
  \<open>a[alo:ahi]\<close>, \<open>b[blo:bhi]\<close>, and an empty one is \<open>(alo, blo, 0)\<close>. During row \<open>i\<close> of
  the outer loop no run recorded in \<open>j2len\<close> is longer than \<open>i - alo\<close> or reaches below
  \<open>blo\<close>.
\<close>

definition bounded :: "nat \<Rightarrow> nat \<Rightarrow> nat \<Rightarrow> nat \<Rightarrow> match \<Rightarrow> bool" where
  "bounded alo ahi blo bhi m =
     (case m of (i, j, k) \<Rightarrow>
        (k = 0 \<and> i = alo \<and> j = blo) \<or>
        (k \<noteq> 0 \<and> alo \<le> i \<and> blo \<le> j \<and> i + k \<le> ahi \<and> j + k \<le> bhi))"

definition j2len_ok :: "nat \<Rightarrow> nat \<Rightarrow> nat \<Rightarrow> (nat \<rightharpoonup> nat) \<Rightarrow> bool" where
  "j2len_ok alo blo i j2len = (\<forall>j k. j2len j = Some k \<longrightarrow> k \<le> i - alo \<and> k \<le> Suc j - blo)"

lemma j2lenget_le:
  assumes "j2len_ok alo blo i j2len" "blo \<le> j"
  shows "j2lenget j2len j \<le> i - alo \<and> j2lenget j2len j \<le> j - blo"
  using assms by (auto simp: j2lenget_def j2len_ok_def split: nat.splits option.splits)

lemma inner_loop_bounded:
  assumes "alo \<le> i" "i < ahi" "j2len_ok alo blo i j2len"
  shows "bounded alo ahi blo bhi best \<Longrightarrow> j2len_ok alo blo (Suc i) newj2len \<Longrightarrow>
         bounded alo ahi blo bhi (fst (inner_loop i blo bhi j2len js (best, newj2len))) \<and>
         j2len_ok alo blo (Suc i) (snd (inner_loop i blo bhi j2len js (best, newj2len)))"
proof (induction js arbitrary: best newj2len)
  case Nil
  then show ?case by simp
next
  case (Cons j js)
  show ?case
  proof (cases "j < blo \<or> bhi \<le> j")
    case True
    show ?thesis
    proof (cases "j < blo")
      case True
      then have "inner_loop i blo bhi j2len (j # js) (best, newj2len) =
                 inner_loop i blo bhi j2len js (best, newj2len)" by simp
      then show ?thesis using Cons.IH[OF Cons.prems] by simp
    next
      case False
      with True have "inner_loop i blo bhi j2len (j # js) (best, newj2len) = (best, newj2len)"
        by simp
      then show ?thesis using Cons.prems by simp
    qed
  next
    case False
    then have j: "blo \<le> j" "j < bhi" by auto
    define k where "k = j2lenget j2len j + 1"
    have k: "k \<le> Suc i - alo" "k \<le> Suc j - blo" "k \<noteq> 0"
      using j2lenget_le[OF assms(3) j(1)] assms(1) j(1) by (auto simp: k_def)
    have b': "bounded alo ahi blo bhi (if snd (snd best) < k then (Suc i - k, Suc j - k, k) else best)"
      using Cons.prems(1) k assms j by (auto simp: bounded_def)
    have n': "j2len_ok alo blo (Suc i) (newj2len(j \<mapsto> k))"
      using Cons.prems(2) k by (auto simp: j2len_ok_def)
    have step: "inner_loop i blo bhi j2len (j # js) (best, newj2len) =
                inner_loop i blo bhi j2len js
                  (if snd (snd best) < k then (Suc i - k, Suc j - k, k) else best, newj2len(j \<mapsto> k))"
      using False by (simp add: k_def Let_def)
    show ?thesis unfolding step by (rule Cons.IH[OF b' n'])
  qed
qed

lemma outer_loop_bounded:
  "alo \<le> lo \<Longrightarrow> bounded alo ahi blo bhi best \<Longrightarrow> j2len_ok alo blo lo j2len \<Longrightarrow>
   bounded alo ahi blo bhi (fst (outer_loop a b blo bhi [lo..<ahi] (best, j2len)))"
proof (induction "ahi - lo" arbitrary: lo best j2len)
  case 0
  then show ?case by simp
next
  case (Suc n)
  then have lo: "lo < ahi" by simp
  let ?st = "inner_loop lo blo bhi j2len (b2j b (a ! lo)) (best, Map.empty)"
  have e: "j2len_ok alo blo (Suc lo) Map.empty" by (simp add: j2len_ok_def)
  have i: "bounded alo ahi blo bhi (fst ?st) \<and> j2len_ok alo blo (Suc lo) (snd ?st)"
    by (rule inner_loop_bounded[OF Suc.prems(1) lo Suc.prems(3) Suc.prems(2) e])
  have n: "n = ahi - Suc lo" using Suc.hyps(2) by simp
  have "bounded alo ahi blo bhi (fst (outer_loop a b blo bhi [Suc lo..<ahi] (fst ?st, snd ?st)))"
    using Suc.hyps(1)[OF n _ conjunct1[OF i] conjunct2[OF i]] Suc.prems(1) by simp
  then show ?case using lo by (simp add: upt_conv_Cons)
qed

lemma extend_left_bounded:
  "bounded alo ahi blo bhi m \<Longrightarrow> bounded alo ahi blo bhi (extend_left a b alo blo junk m)"
proof (induction a b alo blo junk m rule: extend_left.induct)
  case (1 a b alo blo junk besti bestj bestsize)
  show ?case
  proof (cases "alo < besti \<and> blo < bestj \<and> isbjunk (b ! (bestj - 1)) = junk \<and>
         a ! (besti - 1) = b ! (bestj - 1)")
    case True
    have "bounded alo ahi blo bhi (besti - 1, bestj - 1, bestsize + 1)"
      using True "1.prems" by (auto simp: bounded_def)
    from "1.IH"[OF True this] show ?thesis
      using True by (subst extend_left.simps) simp
  next
    case False
    show ?thesis
      using False "1.prems" by (subst extend_left.simps) auto
  qed
qed

lemma extend_right_bounded:
  "bounded alo ahi blo bhi m \<Longrightarrow> bounded alo ahi blo bhi (extend_right a b ahi bhi junk m)"
proof (induction a b ahi bhi junk m rule: extend_right.induct)
  case (1 a b ahi bhi junk besti bestj bestsize)
  show ?case
  proof (cases "besti + bestsize < ahi \<and> bestj + bestsize < bhi \<and>
         isbjunk (b ! (bestj + bestsize)) = junk \<and>
         a ! (besti + bestsize) = b ! (bestj + bestsize)")
    case True
    have "bounded alo ahi blo bhi (besti, bestj, bestsize + 1)"
      using True "1.prems" by (auto simp: bounded_def)
    from "1.IH"[OF True this] show ?thesis
      using True by (subst extend_right.simps) simp
  next
    case False
    show ?thesis
      using False "1.prems" by (subst extend_right.simps) auto
  qed
qed

lemma find_longest_match_bounded:
  "bounded alo ahi blo bhi (find_longest_match a b alo ahi blo bhi)"
proof -
  have "bounded alo ahi blo bhi (alo, blo, 0)" by (simp add: bounded_def)
  moreover have "j2len_ok alo blo alo Map.empty" by (simp add: j2len_ok_def)
  ultimately have "bounded alo ahi blo bhi (fst (outer_loop a b blo bhi [alo..<ahi] ((alo, blo, 0), Map.empty)))"
    by (intro outer_loop_bounded) simp_all
  then show ?thesis
    unfolding find_longest_match_def Let_def
    by (intro extend_right_bounded extend_left_bounded)
qed

lemma find_longest_match_window:
  assumes "find_longest_match a b alo ahi blo bhi = (i, j, k)" "k \<noteq> 0"
  shows "alo \<le> i \<and> i + k \<le> ahi \<and> blo \<le> j \<and> j + k \<le> bhi"
  using find_longest_match_bounded[of alo ahi blo bhi a b] assms by (simp add: bounded_def)

subsection \<open>\<open>get_matching_blocks\<close> and \<open>ratio\<close>\<close>

text \<open>
  \<open>queue_step\<close> is the body of the \<open>while queue:\<close> loop for the window it popped: the
  windows it appends to the queue, the last one appended first in the list (the head of
  the list is the end of the Python list, where \<open>pop\<close> and \<open>append\<close> work), and the block
  it appends to \<open>matching_blocks\<close>.
\<close>

definition queue_step ::
  "'a list \<Rightarrow> 'a list \<Rightarrow> nat \<times> nat \<times> nat \<times> nat \<Rightarrow> (nat \<times> nat \<times> nat \<times> nat) list \<times> match list"
where
  "queue_step a b q =
     (case q of (alo, ahi, blo, bhi) \<Rightarrow>
        (case find_longest_match a b alo ahi blo bhi of
           (i, j, k) \<Rightarrow>
             if k \<noteq> 0 then
               ((if i + k < ahi \<and> j + k < bhi then [(i + k, ahi, j + k, bhi)] else []) @
                (if alo < i \<and> blo < j then [(alo, i, blo, j)] else []),
                [(i, j, k)])
             else ([], [])))"

definition queue_size :: "(nat \<times> nat \<times> nat \<times> nat) list \<Rightarrow> nat" where
  "queue_size queue = (\<Sum>(alo, ahi, blo, bhi) \<leftarrow> queue. 2 * (ahi - alo) + 1)"

lemma queue_step_smaller: "queue_size (fst (queue_step a b q)) < queue_size [q]"
proof -
  obtain alo ahi blo bhi where q: "q = (alo, ahi, blo, bhi)" by (cases q) auto
  obtain i j k where m: "find_longest_match a b alo ahi blo bhi = (i, j, k)"
    by (cases "find_longest_match a b alo ahi blo bhi") auto
  show ?thesis
  proof (cases "k = 0")
    case True
    then show ?thesis by (simp add: queue_step_def q m queue_size_def)
  next
    case False
    from find_longest_match_window[OF m False]
    have w: "alo \<le> i" "i + k \<le> ahi" by simp_all
    have e: "ahi - alo = (ahi - (i + k)) + (i - alo) + k" using w by linarith
    show ?thesis using False by (simp add: queue_step_def q m queue_size_def e)
  qed
qed

function match_loop ::
  "'a list \<Rightarrow> 'a list \<Rightarrow> (nat \<times> nat \<times> nat \<times> nat) list \<Rightarrow> match list \<Rightarrow> match list"
where
  "match_loop a b [] matching_blocks = matching_blocks"
| "match_loop a b (q # queue) matching_blocks =
     match_loop a b (fst (queue_step a b q) @ queue) (matching_blocks @ snd (queue_step a b q))"
  by pat_completeness auto
termination
proof (relation "measure (\<lambda>(a, b, queue, mb). queue_size queue)", goal_cases)
  case 1
  show ?case by simp
next
  case (2 a b q queue matching_blocks)
  have "queue_size (fst (queue_step a b q) @ queue) < queue_size (q # queue)"
    using queue_step_smaller[of a b q] by (simp add: queue_size_def)
  then show ?case by simp
qed

text \<open>
  The second loop of \<open>get_matching_blocks\<close> collapses adjacent blocks of the sorted list;
  \<open>(i1, j1, k1)\<close> is the block compared against and starts as the dummy \<open>(0, 0, 0)\<close>.
  Tuples sort lexicographically.
\<close>

fun collapse :: "match list \<Rightarrow> match \<Rightarrow> match list \<Rightarrow> match list" where
  "collapse [] (i1, j1, k1) non_adjacent =
     (if k1 \<noteq> 0 then non_adjacent @ [(i1, j1, k1)] else non_adjacent)"
| "collapse ((i2, j2, k2) # rest) (i1, j1, k1) non_adjacent =
     (if i1 + k1 = i2 \<and> j1 + k1 = j2 then collapse rest (i1, j1, k1 + k2) non_adjacent
      else collapse rest (i2, j2, k2)
             (if k1 \<noteq> 0 then non_adjacent @ [(i1, j1, k1)] else non_adjacent))"

definition get_matching_blocks :: "'a list \<Rightarrow> 'a list \<Rightarrow> match list" where
  "get_matching_blocks a b =
     (let la = length a; lb = length b;
          matching_blocks = sort (match_loop a b [(0, la, 0, lb)] []);
          non_adjacent = collapse matching_blocks (0, 0, 0) []
      in non_adjacent @ [(la, lb, 0)])"

text \<open>
  \<open>_calculate_ratio\<close> returns the float \<open>2.0 * matches / length\<close>, and \<open>1.0\<close> for length 0.
  The model keeps the exact quotient. \<open>is_duplicate\<close> only compares it with the literal
  \<open>0.9\<close>: the correctly rounded quotient of two integers is above the double nearest to
  9/10 exactly when the quotient is above 9/10, as long as the two texts together have
  fewer than \<open>10^15\<close> characters.
\<close>

definition calculate_ratio :: "nat \<Rightarrow> nat \<Rightarrow> rat" where
  "calculate_ratio matches len = (if len \<noteq> 0 then 2 * of_nat matches / of_nat len else 1)"

definition ratio :: "'a list \<Rightarrow> 'a list \<Rightarrow> rat" where
  "ratio a b =
     (let matches = sum_list (map (\<lambda>(i, j, k). k) (get_matching_blocks a b))
      in calculate_ratio matches (length a + length b))"

section \<open>Events, errors and the store of \<open>karkas.py\<close>\<close>

text \<open>
  JSON data: the metadata of a request to the endpoint and the reply of the classification
  service. Python's \<open>None\<close> is \<open>JNull\<close>.
\<close>

datatype json =
  JNull | JBool bool | JNum rat | JStr string | JArr "json list" | JObj "(string \<times> json) list"

type_synonym meta = "(string \<times> json) list"

text \<open>
  The keyword arguments \<open>**meta\<close> of \<open>process_event\<close> are any Python values. \<open>PyObject\<close>
  is a value for which \<open>json.dumps\<close> has no encoding and raises \<open>TypeError\<close>, such as a
  set, bytes, a \<open>datetime\<close> or a dictionary with a tuple for a key, given by its \<open>repr\<close>.
  A dictionary of keyword arguments is the list of its items, the keys being the names of
  the keywords. The values are finite trees; a list or dictionary that holds itself, for
  which \<open>json.dumps\<close> raises \<open>ValueError\<close>, is not among them.
\<close>

datatype pyvalue =
  PyNone | PyBool bool | PyNum rat | PyStr string | PyList "pyvalue list"
| PyDict "(string \<times> pyvalue) list" | PyObject string

type_synonym kwargs = "(string \<times> pyvalue) list"

record entities =
  location :: string
  timestamp :: string
  actors :: "string list"

text \<open>
  An event is a dictionary. Each key the code reads or writes is a field, \<open>None\<close> when the
  dictionary does not hold the key; the field \<open>text'\<close> is the key \<open>"text"\<close>. The values have
  the types \<open>DataIngestion.ingest\<close> gives them; the metadata is the dictionary of keyword
  arguments.
\<close>

record event =
  source :: "string option"
  text' :: "string option"
  received_at :: "string option"
  meta :: "kwargs option"
  category :: "string option"
  entities :: "entities option"

datatype error =
  KeyError string | TypeError | IntegrityError | AttributeError | HTTPException nat string

text \<open>
  A row of the SQLite table \<open>events\<close>, without the \<open>id\<close> that SQLite assigns and no code
  reads. The column \<open>meta\<close> holds the text \<open>json.dumps\<close> returns for the metadata; the
  row keeps the dictionary that was serialised. The store is the list of rows in insertion
  order.
\<close>

record row =
  row_source :: string
  row_text :: string
  row_hash :: string
  row_received_at :: string
  row_meta :: kwargs

section \<open>The stages of the pipeline\<close>

text \<open>
  A call \<open>f(source, text, **kwargs)\<close> of a method \<open>def f(self, source, text, **kwargs)\<close>
  raises \<open>TypeError\<close> (\<open>got multiple values for argument\<close>) when a keyword has the name of
  a parameter that the call has bound already; otherwise the keywords are collected into
  the dictionary \<open>kwargs\<close>. \<open>bind_kwargs\<close> is this step of the call, for the names
  \<open>params\<close> of the bound parameters.
\<close>

definition keyword_clash :: "string list \<Rightarrow> kwargs \<Rightarrow> bool" where
  "keyword_clash params kw = list_ex (\<lambda>item. fst item \<in> set params) kw"

definition bind_kwargs :: "string list \<Rightarrow> kwargs \<Rightarrow> error + kwargs" where
  "bind_kwargs params kw = (if keyword_clash params kw then Inl TypeError else Inr kw)"

text \<open>
  \<open>json.dumps(obj)\<close> raises \<open>TypeError\<close> (\<open>Object of type ... is not JSON serializable\<close>)
  when \<open>obj\<close> holds, at any depth, a value it has no encoding for, and returns the text
  otherwise. The text is kept as the value it encodes.
\<close>

fun encodable :: "pyvalue \<Rightarrow> bool" where
  "encodable PyNone = True"
| "encodable (PyBool b) = True"
| "encodable (PyNum x) = True"
| "encodable (PyStr s) = True"
| "encodable (PyList xs) = list_all encodable xs"
| "encodable (PyDict items) = list_all (\<lambda>item. encodable (snd item)) items"
| "encodable (PyObject repr) = False"

definition json_dumps :: "kwargs \<Rightarrow> error + kwargs" where
  "json_dumps obj = (if encodable (PyDict obj) then Inr obj else Inl TypeError)"

text \<open>
  \<open>DataIngestion.ingest\<close>, the body of the method for the dictionary \<open>kwargs\<close> that the
  call has built. The clock \<open>datetime.utcnow().isoformat()\<close> is the argument \<open>now\<close>.
\<close>

definition ingest :: "string \<Rightarrow> string \<Rightarrow> string \<Rightarrow> kwargs \<Rightarrow> event" where
  "ingest now src t kwargs =
     \<lparr>source = Some src, text' = Some (strip t), received_at = Some now,
      meta = Some kwargs, category = None, entities = None\<rparr>"

text \<open>\<open>Normalization.normalize\<close>: \<open>record["text"]\<close> raises \<open>KeyError\<close> on a missing key.\<close>

definition normalize :: "event \<Rightarrow> error + event" where
  "normalize r =
     (case text' r of
        None \<Rightarrow> Inl (KeyError ''text'')
      | Some t \<Rightarrow> Inr (r\<lparr>text' := Some (strip (lower t))\<rparr>))"

text \<open>
  \<open>DeduplicationEngine\<close>. The digest \<open>hashlib.sha256(text.encode()).hexdigest()\<close> of
  \<open>_hash\<close> is the parameter \<open>sha256\<close> of every function that hashes. \<open>hash_exists\<close> is the
  query \<open>SELECT text FROM events WHERE hash = ?\<close> with \<open>fetchone()\<close> read as a truth value;
  \<open>near_duplicate\<close> is the loop over \<open>SELECT text FROM events\<close>.
\<close>

definition hash_exists :: "row list \<Rightarrow> string \<Rightarrow> bool" where
  "hash_exists db h = (find (\<lambda>r. row_hash r = h) db \<noteq> None)"

fun near_duplicate :: "string \<Rightarrow> string list \<Rightarrow> bool" where
  "near_duplicate t [] = False"
| "near_duplicate t (existing # rest) =
     (if 9 / 10 < ratio t existing then True else near_duplicate t rest)"

definition is_duplicate :: "(string \<Rightarrow> string) \<Rightarrow> row list \<Rightarrow> string \<Rightarrow> bool" where
  "is_duplicate sha256 db t =
     (let text_hash = sha256 t
      in if hash_exists db text_hash then True else near_duplicate t (map row_text db))"

text \<open>
  The \<open>INSERT\<close>: the column \<open>hash\<close> is \<open>UNIQUE\<close>, so SQLite raises \<open>IntegrityError\<close> for a
  digest the table holds.
\<close>

definition insert_event :: "row \<Rightarrow> row list \<Rightarrow> error + row list" where
  "insert_event r db =
     (if hash_exists db (row_hash r) then Inl IntegrityError else Inr (db @ [r]))"

text \<open>
  \<open>validate_and_store\<close> returns its result, or the exception it raises, and the store
  after the call. The tuple of the \<open>INSERT\<close> is evaluated from left to right:
  \<open>record["source"]\<close>, \<open>record["received_at"]\<close>, then \<open>json.dumps(record.get("meta", {}))\<close>.
\<close>

definition validate_and_store ::
  "(string \<Rightarrow> string) \<Rightarrow> row list \<Rightarrow> event \<Rightarrow> (error + bool) \<times> row list"
where
  "validate_and_store sha256 db r =
     (let t = (case text' r of None \<Rightarrow> [] | Some t \<Rightarrow> t)
      in if length t < 5 \<or> is_duplicate sha256 db t then (Inr False, db)
         else
           (case source r of
              None \<Rightarrow> (Inl (KeyError ''source''), db)
            | Some src \<Rightarrow>
                (case received_at r of
                   None \<Rightarrow> (Inl (KeyError ''received_at''), db)
                 | Some ra \<Rightarrow>
                     (case json_dumps (case meta r of None \<Rightarrow> [] | Some m \<Rightarrow> m) of
                        Inl e \<Rightarrow> (Inl e, db)
                      | Inr m \<Rightarrow>
                          (case insert_event
                                  \<lparr>row_source = src, row_text = t, row_hash = sha256 t,
                                   row_received_at = ra, row_meta = m\<rparr> db
                           of
                             Inl e \<Rightarrow> (Inl e, db)
                           | Inr db' \<Rightarrow> (Inr True, db'))))))"

text \<open>
  \<open>ClassificationEngine\<close>. A Python dictionary is iterated in insertion order, so
  \<open>CATEGORIES\<close> is the list of its items; \<open>kw in text\<close> is the substring test.
\<close>

definition CATEGORIES :: "(string \<times> string) list" where
  "CATEGORIES =
     [(''protest'', ''CIVIL_ACTIVITY''), (''threat'', ''SECURITY_ALERT''),
      (''outage'', ''INFRASTRUCTURE''), (''attack'', ''CRISIS_EVENT'')]"

fun classify_loop :: "(string \<times> string) list \<Rightarrow> string \<Rightarrow> string \<Rightarrow> string" where
  "classify_loop [] t cat = cat"
| "classify_loop ((kw, c) # rest) t cat = (if sublist kw t then c else classify_loop rest t cat)"

definition classify :: "event \<Rightarrow> error + event" where
  "classify r =
     (case text' r of
        None \<Rightarrow> Inl (KeyError ''text'')
      | Some t \<Rightarrow> Inr (r\<lparr>category := Some (classify_loop CATEGORIES t ''UNCLASSIFIED'')\<rparr>))"

text \<open>\<open>EnrichmentEngine.enrich\<close>.\<close>

definition enrich :: "event \<Rightarrow> error + event" where
  "enrich r =
     (case received_at r of
        None \<Rightarrow> Inl (KeyError ''received_at'')
      | Some ra \<Rightarrow>
          Inr (r\<lparr>entities := Some \<lparr>location = ''unknown'', timestamp = ra, actors = []\<rparr>\<rparr>))"

text \<open>
  \<open>AnalyticsEngine.analyze\<close>. The summary is a dictionary from category to count, kept as
  the list of its items in insertion order: \<open>dict_get\<close> is \<open>summary.get(cat, 0)\<close>,
  \<open>dict_set\<close> is \<open>summary[cat] = v\<close> and \<open>get_category\<close> is
  \<open>r.get("category", "UNCLASSIFIED")\<close>.
\<close>

fun dict_get :: "(string \<times> int) list \<Rightarrow> string \<Rightarrow> int \<Rightarrow> int" where
  "dict_get [] key dflt = dflt"
| "dict_get ((k, v) # rest) key dflt = (if k = key then v else dict_get rest key dflt)"

fun dict_set :: "(string \<times> int) list \<Rightarrow> string \<Rightarrow> int \<Rightarrow> (string \<times> int) list" where
  "dict_set [] key v = [(key, v)]"
| "dict_set ((k, w) # rest) key v =
     (if k = key then (k, v) # rest else (k, w) # dict_set rest key v)"

definition get_category :: "event \<Rightarrow> string" where
  "get_category r = (case category r of None \<Rightarrow> ''UNCLASSIFIED'' | Some c \<Rightarrow> c)"

fun analyze_loop :: "(string \<times> int) list \<Rightarrow> event list \<Rightarrow> (string \<times> int) list" where
  "analyze_loop summary [] = summary"
| "analyze_loop summary (r # records) =
     (let cat = get_category r
      in analyze_loop (dict_set summary cat (dict_get summary cat 0 + 1)) records)"

definition analyze :: "event list \<Rightarrow> (string \<times> int) list" where
  "analyze records = analyze_loop [] records"

section \<open>The orchestrator\<close>

text \<open>
  The dictionary \<open>process_event\<close> returns: \<open>{"status": "rejected", "reason": ...}\<close> or
  \<open>{"status": "processed", "event": ...}\<close>.
\<close>

datatype result = Rejected string | Processed event


text \<open>
  \<open>process_event(source, text, **meta)\<close>: the call binds its keywords, and so does the
  call \<open>self.ingestor.ingest(source, text, **meta)\<close> inside; both methods have the
  parameters \<open>self\<close>, \<open>source\<close> and \<open>text\<close>. An exception of a stage leaves the method.
\<close>

definition process_event ::
  "(string \<Rightarrow> string) \<Rightarrow> row list \<Rightarrow> string \<Rightarrow> string \<Rightarrow> string \<Rightarrow> kwargs \<Rightarrow>
   (error + result) \<times> row list"
where
  "process_event sha256 db now src t kwargs =
     (case bind_kwargs [''self'', ''source'', ''text''] kwargs of
        Inl e \<Rightarrow> (Inl e, db)
      | Inr m \<Rightarrow>
          (case bind_kwargs [''self'', ''source'', ''text''] m of
             Inl e \<Rightarrow> (Inl e, db)
           | Inr kw \<Rightarrow>
               (case normalize (ingest now src t kw) of
                  Inl e \<Rightarrow> (Inl e, db)
                | Inr ev \<Rightarrow>
                    (case validate_and_store sha256 db ev of
                       (Inl e, db') \<Rightarrow> (Inl e, db')
                     | (Inr False, db') \<Rightarrow> (Inr (Rejected ''duplicate_or_invalid''), db')
                     | (Inr True, db') \<Rightarrow>
                         (case classify ev of
                            Inl e \<Rightarrow> (Inl e, db')
                          | Inr ev' \<Rightarrow>
                              (case enrich ev' of
                                 Inl e \<Rightarrow> (Inl e, db')
                               | Inr ev'' \<Rightarrow> (Inr (Processed ev''), db')))))))"

text \<open>
  The operations on a pipeline and its store: \<open>process_event\<close>, \<open>analyze_all\<close> (which
  reads nothing and returns \<open>{"status": "analytics_ready"}\<close>), a direct call of
  \<open>validate_and_store\<close>, and \<open>_init_db\<close>, whose \<open>CREATE TABLE IF NOT EXISTS\<close> leaves an
  existing table as it is.
\<close>

datatype operation =
  Process_event string string string kwargs
| Analyze_all
| Validate_and_store event
| Init_db

fun run_operation :: "(string \<Rightarrow> string) \<Rightarrow> row list \<Rightarrow> operation \<Rightarrow> row list" where
  "run_operation sha256 db (Process_event now src t kwargs) =
     snd (process_event sha256 db now src t kwargs)"
| "run_operation sha256 db Analyze_all = db"
| "run_operation sha256 db (Validate_and_store r) = snd (validate_and_store sha256 db r)"
| "run_operation sha256 db Init_db = db"

fun run_operations :: "(string \<Rightarrow> string) \<Rightarrow> row list \<Rightarrow> operation list \<Rightarrow> row list" where
  "run_operations sha256 db [] = db"
| "run_operations sha256 db (operation # rest) =
     run_operations sha256 (run_operation sha256 db operation) rest"

section \<open>The HTTP endpoint \<open>ingest\<close> of \<open>api/app/main.py\<close>\<close>

text \<open>
  The PostgreSQL table \<open>events\<close>: its rows, newest last, and the next value of the
  sequence behind \<open>id SERIAL\<close>. The column \<open>category\<close> holds the value the handler passes
  to the driver.
\<close>

record provenance =
  ingested_by :: string
  ingested_at :: string
  client :: string
  ml :: json

record api_row =
  api_id :: nat
  api_source :: string
  api_text :: string
  api_received_at :: string
  api_hash :: string
  api_meta :: "meta option"
  api_category :: json
  api_provenance :: provenance

record api_db =
  api_rows :: "api_row list"
  next_id :: nat

record payload =
  payload_source :: string
  payload_text :: string
  payload_meta :: "meta option"

text \<open>
  What the call of the classification service does: \<open>requests.post\<close> raises (the
  service cannot be reached, or does not answer in time), \<open>r.json()\<close> raises (the body is
  not JSON), or \<open>r.json()\<close> returns the JSON value of the body.
\<close>

datatype ml_reply = Unreachable | Not_json | Reply json

datatype api_result = Api_rejected string | Accepted nat json

definition make_hash :: "(string \<Rightarrow> string) \<Rightarrow> string \<Rightarrow> string" where
  "make_hash sha256 t = sha256 (lower (strip t))"

definition check_duplicate :: "(string \<Rightarrow> string) \<Rightarrow> api_db \<Rightarrow> string \<Rightarrow> bool" where
  "check_duplicate sha256 db t =
     (let h = make_hash sha256 t in find (\<lambda>r. api_hash r = h) (api_rows db) \<noteq> None)"

text \<open>
  \<open>save_event\<close>: the \<open>INSERT ... RETURNING id\<close>, refused with \<open>IntegrityError\<close> when the
  digest is in the table. The fields of the row are those of the handler's \<open>record\<close>.
\<close>

definition save_event :: "api_row \<Rightarrow> api_db \<Rightarrow> (error + nat) \<times> api_db" where
  "save_event r db =
     (if find (\<lambda>x. api_hash x = api_hash r) (api_rows db) \<noteq> None then (Inl IntegrityError, db)
      else (Inr (next_id db),
            db\<lparr>api_rows := api_rows db @ [r\<lparr>api_id := next_id db\<rparr>], next_id := next_id db + 1\<rparr>))"

text \<open>\<open>ml_out.get("category")\<close>: only a dictionary has the method \<open>get\<close>.\<close>

definition json_get :: "json \<Rightarrow> string \<Rightarrow> error + json" where
  "json_get j key =
     (case j of
        JObj items \<Rightarrow> Inr (case map_of items key of None \<Rightarrow> JNull | Some v \<Rightarrow> v)
      | _ \<Rightarrow> Inl AttributeError)"

text \<open>
  The handler. \<open>host\<close> is \<open>request.client.host\<close>, \<open>now1\<close> and \<open>now2\<close> are the two readings of
  the clock, and \<open>reply\<close> is what the call of the classification service does.
\<close>

definition api_ingest ::
  "(string \<Rightarrow> string) \<Rightarrow> api_db \<Rightarrow> string \<Rightarrow> string \<Rightarrow> string \<Rightarrow> ml_reply \<Rightarrow> payload \<Rightarrow>
   (error + api_result) \<times> api_db"
where
  "api_ingest sha256 db host now1 now2 reply p =
     (let t = strip (payload_text p)
      in if length t < 5 then (Inl (HTTPException 400 ''Text too short''), db)
         else if check_duplicate sha256 db t then (Inr (Api_rejected ''duplicate''), db)
         else
           let prov = \<lparr>ingested_by = ''api'', ingested_at = now1, client = host, ml = JNull\<rparr>;
               ml_out =
                 (case reply of
                    Reply v \<Rightarrow> v
                  | _ \<Rightarrow> JObj [(''category'', JStr ''UNCLASSIFIED''), (''confidence'', JNum 0)])
           in case json_get ml_out ''category'' of
                Inl e \<Rightarrow> (Inl e, db)
              | Inr cat \<Rightarrow>
                  (case save_event
                          \<lparr>api_id = 0, api_source = payload_source p, api_text = t,
                           api_received_at = now2, api_hash = make_hash sha256 t,
                           api_meta = payload_meta p, api_category = cat,
                           api_provenance = prov\<lparr>ml := ml_out\<rparr>\<rparr> db
                   of
                     (Inl e, db') \<Rightarrow> (Inl e, db')
                   | (Inr eid, db') \<Rightarrow> (Inr (Accepted eid cat), db')))"

section \<open>Normalization\<close>

lemma lower_char_idem: "lower_char (lower_char c) = lower_char c"
  by (auto simp: lower_char_def Let_def)

lemma isspace_lower_char: "isspace (lower_char c) = isspace c"
  by (auto simp: lower_char_def isspace_def Let_def)

lemma lower_idem: "lower (lower s) = lower s"
  by (simp add: lower_def lower_char_idem)

lemma lower_strip: "lower (strip s) = strip (lower s)"
proof -
  have c: "isspace \<circ> lower_char = isspace" by (rule ext) (simp add: isspace_lower_char)
  have dw: "dropWhile isspace (map lower_char xs) = map lower_char (dropWhile isspace xs)" for xs
    by (simp add: dropWhile_map c)
  show ?thesis
    by (simp add: lower_def strip_def dw rev_map)
qed

lemma dropWhile_unstripped:
  assumes "xs = [] \<or> \<not> P (hd xs)"
  shows "dropWhile P (rev (dropWhile P (rev xs))) = rev (dropWhile P (rev xs))"
proof (cases "rev (dropWhile P (rev xs))")
  case Nil
  show ?thesis unfolding Nil by simp
next
  case (Cons z zs)
  have "rev xs = takeWhile P (rev xs) @ dropWhile P (rev xs)" by simp
  then have "xs = rev (dropWhile P (rev xs)) @ rev (takeWhile P (rev xs))"
    by (metis rev_append rev_rev_ident)
  then have "xs = (z # zs) @ rev (takeWhile P (rev xs))" using Cons by simp
  then have "xs \<noteq> []" "hd xs = z" by (metis append_Cons list.distinct(1), metis append_Cons list.sel(1))
  with assms have "\<not> P z" by auto
  then show ?thesis unfolding Cons by simp
qed

lemma strip_idem: "strip (strip s) = strip s"
proof -
  have h: "dropWhile isspace s = [] \<or> \<not> isspace (hd (dropWhile isspace s))"
    using hd_dropWhile[of isspace s] by blast
  show ?thesis
    unfolding strip_def
    by (simp add: dropWhile_unstripped[of "dropWhile isspace s" isspace, OF h])
qed

lemma normalize_text_idem: "strip (lower (strip (lower x))) = strip (lower x)"
  by (simp add: lower_strip strip_idem lower_idem)

text \<open>
  Claim C8. Normalization is deterministic and idempotent. \<open>normalize\<close> is a function of
  the record: on a record with a text \<open>x\<close> it returns the record with the text trimmed and
  in lower case, \<open>strip (lower x)\<close>. Normalizing the result again returns the same result,
  whether the first call returns or raises, and the text transformation applied twice
  equals one application.
\<close>

theorem normalize_idempotent:
  "(case normalize r of Inl e \<Rightarrow> Inl e | Inr r' \<Rightarrow> normalize r') = normalize r \<and>
   (\<forall>x. text' r = Some x \<longrightarrow>
      normalize r = Inr (r\<lparr>text' := Some (strip (lower x))\<rparr>) \<and>
      strip (lower (strip (lower x))) = strip (lower x))"
  by (auto simp: normalize_def normalize_text_idem split: option.splits)

theorem normalize_idempotent_witness:
  "normalize (ingest ''t0'' ''OSINT'' '' Peaceful PROTEST  '' []) =
     Inr \<lparr>source = Some ''OSINT'', text' = Some ''peaceful protest'', received_at = Some ''t0'',
          meta = Some [], category = None, entities = None\<rparr> \<and>
   normalize \<lparr>source = Some ''OSINT'', text' = Some ''peaceful protest'', received_at = Some ''t0'',
          meta = Some [], category = None, entities = None\<rparr> =
     Inr \<lparr>source = Some ''OSINT'', text' = Some ''peaceful protest'', received_at = Some ''t0'',
          meta = Some [], category = None, entities = None\<rparr>"
proof -
  let ?r = "ingest ''t0'' ''OSINT'' '' Peaceful PROTEST  '' []"
  have t: "text' ?r = Some ''Peaceful PROTEST''" by code_simp
  have v: "strip (lower ''Peaceful PROTEST'') = ''peaceful protest''" by code_simp
  have r: "?r\<lparr>text' := Some ''peaceful protest''\<rparr> = \<lparr>source = Some ''OSINT'', text' = Some ''peaceful protest'', received_at = Some ''t0'',
          meta = Some [], category = None, entities = None\<rparr>" by (simp add: ingest_def)
  from normalize_idempotent[of ?r] t have n: "normalize ?r = Inr (?r\<lparr>text' := Some (strip (lower ''Peaceful PROTEST''))\<rparr>)"
    by blast
  from normalize_idempotent[of ?r] have "(case normalize ?r of Inl e \<Rightarrow> Inl e | Inr r' \<Rightarrow> normalize r') = normalize ?r" by blast
  then show ?thesis unfolding n v r by simp
qed

section \<open>Classification\<close>

lemma classify_loop_CATEGORIES:
  "classify_loop CATEGORIES t ''UNCLASSIFIED'' =
     (if sublist ''protest'' t then ''CIVIL_ACTIVITY''
      else if sublist ''threat'' t then ''SECURITY_ALERT''
      else if sublist ''outage'' t then ''INFRASTRUCTURE''
      else if sublist ''attack'' t then ''CRISIS_EVENT''
      else ''UNCLASSIFIED'')"
  by (simp add: CATEGORIES_def)

text \<open>
  Claim C2. For every text, \<open>classify\<close> sets the category to that of the first keyword, in
  the order protest, threat, outage, attack, that is a substring of the text, and to
  \<open>UNCLASSIFIED\<close> when none is; a text that contains both "protest" and "threat" is
  classified \<open>CIVIL_ACTIVITY\<close>.
\<close>

theorem classify_first_keyword:
  assumes "text' r = Some t"
  shows "classify r =
           Inr (r\<lparr>category := Some
                  (if sublist ''protest'' t then ''CIVIL_ACTIVITY''
                   else if sublist ''threat'' t then ''SECURITY_ALERT''
                   else if sublist ''outage'' t then ''INFRASTRUCTURE''
                   else if sublist ''attack'' t then ''CRISIS_EVENT''
                   else ''UNCLASSIFIED'')\<rparr>) \<and>
         (sublist ''protest'' t \<and> sublist ''threat'' t \<longrightarrow>
            classify r = Inr (r\<lparr>category := Some ''CIVIL_ACTIVITY''\<rparr>))"
  using assms by (simp add: classify_def classify_loop_CATEGORIES)

theorem classify_first_keyword_witness:
  "sublist ''protest'' ''threat of a protest'' \<and> sublist ''threat'' ''threat of a protest'' \<and>
   classify \<lparr>source = Some ''NEWS'', text' = Some ''threat of a protest'',
             received_at = Some ''t0'', meta = Some [], category = None, entities = None\<rparr> =
     Inr \<lparr>source = Some ''NEWS'', text' = Some ''threat of a protest'',
          received_at = Some ''t0'', meta = Some [], category = Some ''CIVIL_ACTIVITY'',
          entities = None\<rparr>"
proof -
  let ?r = "\<lparr>source = Some ''NEWS'', text' = Some ''threat of a protest'',
             received_at = Some ''t0'', meta = Some [], category = None, entities = None\<rparr>"
  have p: "sublist ''protest'' ''threat of a protest''" by code_simp
  have q: "sublist ''threat'' ''threat of a protest''" by code_simp
  have t: "text' ?r = Some ''threat of a protest''" by simp
  from classify_first_keyword[OF t] p q
  have "classify ?r = Inr (?r\<lparr>category := Some ''CIVIL_ACTIVITY''\<rparr>)" by blast
  then show ?thesis using p q by simp
qed

text \<open>
  Claim C9. \<open>classify\<close> changes only the category: the record it returns is its argument
  with the field \<open>category\<close> updated, so the source, the text, the time of receipt, the
  metadata and the entities are those of the argument; and it returns a record for every
  record that has a text.
\<close>

theorem classify_changes_category_only:
  "(\<forall>r'. classify r = Inr r' \<longrightarrow>
      r' = r\<lparr>category := category r'\<rparr> \<and> source r' = source r \<and> text' r' = text' r \<and>
      received_at r' = received_at r \<and> meta r' = meta r \<and> entities r' = entities r) \<and>
   (\<forall>t. text' r = Some t \<longrightarrow> (\<exists>r'. classify r = Inr r'))"
  by (auto simp: classify_def split: option.splits)

theorem classify_changes_category_only_witness:
  "classify \<lparr>source = Some ''API'', text' = Some ''power outage'', received_at = Some ''t1'',
             meta = Some [(''region'', PyStr ''north'')], category = Some ''OLD'',
             entities = Some \<lparr>location = ''here'', timestamp = ''t1'', actors = [''x'']\<rparr>\<rparr> =
     Inr \<lparr>source = Some ''API'', text' = Some ''power outage'', received_at = Some ''t1'',
          meta = Some [(''region'', PyStr ''north'')], category = Some ''INFRASTRUCTURE'',
          entities = Some \<lparr>location = ''here'', timestamp = ''t1'', actors = [''x'']\<rparr>\<rparr>"
proof -
  let ?r = "\<lparr>source = Some ''API'', text' = Some ''power outage'', received_at = Some ''t1'',
             meta = Some [(''region'', PyStr ''north'')], category = Some ''OLD'',
             entities = Some \<lparr>location = ''here'', timestamp = ''t1'', actors = [''x'']\<rparr>\<rparr>"
  have t: "text' ?r = Some ''power outage''" by simp
  from classify_changes_category_only[of ?r] t obtain r' where r': "classify ?r = Inr r'" by blast
  with classify_changes_category_only[of ?r] have f: "r' = ?r\<lparr>category := category r'\<rparr>" by blast
  have c: "classify_loop CATEGORIES ''power outage'' ''UNCLASSIFIED'' = ''INFRASTRUCTURE''" by code_simp
  have "category r' = Some ''INFRASTRUCTURE''" using r' c by (auto simp: classify_def)
  with f have "r' = ?r\<lparr>category := Some ''INFRASTRUCTURE''\<rparr>" by simp
  then show ?thesis using r' by simp
qed

section \<open>Analytics\<close>

lemma dict_get_dict_set:
  "dict_get (dict_set s k v) k' d = (if k' = k then v else dict_get s k' d)"
  by (induction s k v rule: dict_set.induct) auto

lemma sum_dict_set:
  "sum_list (map snd (dict_set s k v)) = sum_list (map snd s) - dict_get s k 0 + v"
  by (induction s k v rule: dict_set.induct) auto

lemma keys_dict_set:
  "map fst (dict_set s k v) = (if k \<in> set (map fst s) then map fst s else map fst s @ [k])"
  by (induction s k v rule: dict_set.induct) auto

lemma analyze_loop_get:
  "dict_get (analyze_loop s rs) c 0 =
     dict_get s c 0 + int (length (filter (\<lambda>r. get_category r = c) rs))"
  by (induction rs arbitrary: s) (auto simp: dict_get_dict_set Let_def)

lemma analyze_loop_sum:
  "sum_list (map snd (analyze_loop s rs)) = sum_list (map snd s) + int (length rs)"
  by (induction rs arbitrary: s) (auto simp: sum_dict_set Let_def)

lemma analyze_loop_distinct:
  "distinct (map fst s) \<Longrightarrow> distinct (map fst (analyze_loop s rs))"
  by (induction rs arbitrary: s) (auto simp: keys_dict_set Let_def)

lemma keys_dict_set_set: "fst ` set (dict_set s k v) = insert k (fst ` set s)"
  by (induction s k v rule: dict_set.induct) auto

lemma analyze_loop_keys:
  "fst ` set (analyze_loop s rs) = fst ` set s \<union> get_category ` set rs"
  by (induction rs arbitrary: s) (simp_all add: keys_dict_set_set Let_def)

text \<open>
  Claim C6. For every list of event records and every category \<open>c\<close>, the count that
  \<open>analyze\<close> returns for \<open>c\<close> (0 when \<open>c\<close> is not a key) is the number of records whose
  category is \<open>c\<close>, a record without a category counting as \<open>UNCLASSIFIED\<close>; the summary
  has each key once and its keys are the categories of the records; the counts add up to
  the number of records; and appending records to the list decreases no count.
\<close>

theorem analyze_counts:
  "dict_get (analyze records) c 0 = int (length (filter (\<lambda>r. get_category r = c) records)) \<and>
   get_category r = (case category r of None \<Rightarrow> ''UNCLASSIFIED'' | Some k \<Rightarrow> k) \<and>
   distinct (map fst (analyze records)) \<and>
   set (map fst (analyze records)) = get_category ` set records \<and>
   sum_list (map snd (analyze records)) = int (length records) \<and>
   dict_get (analyze records) c 0 \<le> dict_get (analyze (records @ extra)) c 0"
proof (intro conjI)
  show "get_category r = (case category r of None \<Rightarrow> ''UNCLASSIFIED'' | Some k \<Rightarrow> k)"
    by (simp add: get_category_def)
  show "set (map fst (analyze records)) = get_category ` set records"
    by (simp add: analyze_def analyze_loop_keys)
qed (simp_all add: analyze_def analyze_loop_get analyze_loop_sum analyze_loop_distinct)

theorem analyze_counts_witness:
  "analyze [\<lparr>source = None, text' = None, received_at = None, meta = None,
             category = Some ''CIVIL_ACTIVITY'', entities = None\<rparr>,
            \<lparr>source = None, text' = None, received_at = None, meta = None,
             category = None, entities = None\<rparr>,
            \<lparr>source = None, text' = None, received_at = None, meta = None,
             category = Some ''CIVIL_ACTIVITY'', entities = None\<rparr>] =
     [(''CIVIL_ACTIVITY'', 2), (''UNCLASSIFIED'', 1)] \<and>
   dict_get [(''CIVIL_ACTIVITY'', 2), (''UNCLASSIFIED'', 1)] ''UNCLASSIFIED'' 0 = 1 \<and>
   sum_list (map snd [(''CIVIL_ACTIVITY'', 2 :: int), (''UNCLASSIFIED'', 1)]) = int 3"
proof -
  let ?e1 = "\<lparr>source = None, text' = None, received_at = None, meta = None,
             category = Some ''CIVIL_ACTIVITY'', entities = None\<rparr>"
  let ?e2 = "\<lparr>source = None, text' = None, received_at = None, meta = None,
             category = None, entities = None\<rparr>"
  have a: "analyze [?e1, ?e2, ?e1] = [(''CIVIL_ACTIVITY'', 2), (''UNCLASSIFIED'', 1)]"
    by (simp add: analyze_def get_category_def)
  from analyze_counts[of "[?e1, ?e2, ?e1]" "''UNCLASSIFIED''" ?e2 "[]"]
  have "dict_get (analyze [?e1, ?e2, ?e1]) ''UNCLASSIFIED'' 0 = 1"
    and "sum_list (map snd (analyze [?e1, ?e2, ?e1])) = int 3"
    by (simp_all add: get_category_def)
  then show ?thesis unfolding a by simp
qed

section \<open>Properties of the similarity ratio\<close>

subsection \<open>The ratio is between 0 and 1\<close>

text \<open>
  \<open>ratio\<close> is \<open>2.0 * matches / length\<close> with \<open>matches\<close> the sum of the sizes of the
  matching blocks. Sorting the blocks and collapsing adjacent ones keeps that sum, so it is
  the sum of the sizes that \<open>match_loop\<close> collects.
\<close>

definition matched :: "match list \<Rightarrow> nat" where
  "matched blocks = sum_list (map (\<lambda>(i, j, k). k) blocks)"

lemma matched_simps [simp]:
  "matched [] = 0" "matched ((i, j, k) # xs) = k + matched xs"
  "matched (xs @ ys) = matched xs + matched ys"
  by (simp_all add: matched_def)

lemma matched_collapse:
  "matched (collapse xs (i1, j1, k1) acc) = matched acc + k1 + matched xs"
  by (induction xs "(i1, j1, k1)" acc arbitrary: i1 j1 k1 rule: collapse.induct) auto

lemma matched_sort: "matched (sort xs) = matched xs"
proof -
  have "sum_list (map f (sort xs)) = sum_list (map f xs)" for f :: "match \<Rightarrow> nat"
    by (metis mset_map mset_sort sum_mset_sum_list)
  then show ?thesis by (simp add: matched_def)
qed

lemma ratio_matched:
  "ratio a b =
     calculate_ratio (matched (match_loop a b [(0, length a, 0, length b)] []))
       (length a + length b)"
  by (simp add: ratio_def get_matching_blocks_def Let_def matched_def [symmetric]
      matched_collapse matched_sort)

text \<open>
  Every block lies in the window it was found in and the windows pushed for it lie beside
  it, so the sizes collected and the widths of the windows still queued never add up to
  more than the length of either text.
\<close>

definition span_a :: "(nat \<times> nat \<times> nat \<times> nat) list \<Rightarrow> nat" where
  "span_a queue = (\<Sum>(alo, ahi, blo, bhi) \<leftarrow> queue. ahi - alo)"

definition span_b :: "(nat \<times> nat \<times> nat \<times> nat) list \<Rightarrow> nat" where
  "span_b queue = (\<Sum>(alo, ahi, blo, bhi) \<leftarrow> queue. bhi - blo)"

lemma queue_step_span:
  "matched (snd (queue_step a b q)) + span_a (fst (queue_step a b q)) \<le> span_a [q] \<and>
   matched (snd (queue_step a b q)) + span_b (fst (queue_step a b q)) \<le> span_b [q]"
proof -
  obtain alo ahi blo bhi where q: "q = (alo, ahi, blo, bhi)" by (cases q) auto
  obtain i j k where m: "find_longest_match a b alo ahi blo bhi = (i, j, k)"
    by (cases "find_longest_match a b alo ahi blo bhi") auto
  show ?thesis
  proof (cases "k = 0")
    case True
    then show ?thesis by (simp add: queue_step_def q m span_a_def span_b_def)
  next
    case False
    from find_longest_match_window[OF m False]
    have w: "alo \<le> i" "i + k \<le> ahi" "blo \<le> j" "j + k \<le> bhi" by simp_all
    show ?thesis using False w by (auto simp: queue_step_def q m span_a_def span_b_def)
  qed
qed

lemma span_append [simp]:
  "span_a (xs @ ys) = span_a xs + span_a ys" "span_b (xs @ ys) = span_b xs + span_b ys"
  by (simp_all add: span_a_def span_b_def)

lemma span_Cons:
  "span_a (q # queue) = span_a [q] + span_a queue" "span_b (q # queue) = span_b [q] + span_b queue"
  by (simp_all add: span_a_def span_b_def)

lemma match_loop_le:
  "matched (match_loop a b queue mb) \<le> matched mb + span_a queue \<and>
   matched (match_loop a b queue mb) \<le> matched mb + span_b queue"
proof (induction a b queue mb rule: match_loop.induct)
  case (1 a b mb)
  show ?case by (simp add: span_a_def span_b_def)
next
  case (2 a b q queue mb)
  from queue_step_span[of a b q] 2 show ?case
    by (simp add: span_Cons[of q queue])
qed

lemma matched_le_lengths:
  "matched (match_loop a b [(0, length a, 0, length b)] []) \<le> length a \<and>
   matched (match_loop a b [(0, length a, 0, length b)] []) \<le> length b"
  using match_loop_le[of a b "[(0, length a, 0, length b)]" "[]"]
  by (simp add: span_a_def span_b_def)

lemma ratio_range: "0 \<le> ratio a b \<and> ratio a b \<le> 1"
proof -
  let ?m = "matched (match_loop a b [(0, length a, 0, length b)] [])"
  have "2 * ?m \<le> length a + length b" using matched_le_lengths[of a b] by linarith
  then have "(2 * of_nat ?m :: rat) \<le> of_nat (length a + length b)"
    by (metis of_nat_le_iff of_nat_mult of_nat_numeral)
  then show ?thesis
    by (auto simp: ratio_matched calculate_ratio_def divide_le_eq_1)
qed

subsection \<open>Texts with no common character\<close>

text \<open>
  When no character of \<open>a\<close> occurs in \<open>b\<close>, \<open>b2j\<close> is empty for every character of \<open>a\<close>,
  the loops of \<open>find_longest_match\<close> find and extend nothing, and there is no block.
\<close>

lemma indices_empty: "elt \<notin> set b \<Longrightarrow> indices b elt = []"
  by (auto simp: indices_def filter_empty_conv)

lemma b2j_empty: "elt \<notin> set b \<Longrightarrow> b2j b elt = []"
  by (simp add: b2j_def indices_empty)

lemma outer_loop_no_match:
  "\<forall>i \<in> set rows. b2j b (a ! i) = [] \<Longrightarrow>
   fst (outer_loop a b blo bhi rows (best, j2len)) = best"
  by (induction rows arbitrary: j2len) simp_all

lemma extend_left_junk: "extend_left a b alo blo True m = m"
  by (cases m) (simp add: extend_left.simps isbjunk_def)

lemma extend_right_junk: "extend_right a b ahi bhi True m = m"
  by (cases m) (simp add: extend_right.simps isbjunk_def)

lemma extend_left_at_lo: "extend_left a b alo blo junk (alo, j, k) = (alo, j, k)"
  by (simp add: extend_left.simps)

lemma extend_right_no_match:
  "(i + k < ahi \<and> j + k < bhi \<longrightarrow> a ! (i + k) \<noteq> b ! (j + k)) \<Longrightarrow>
   extend_right a b ahi bhi junk (i, j, k) = (i, j, k)"
  by (auto simp: extend_right.simps)

lemma find_longest_match_disjoint:
  assumes "set a \<inter> set b = {}"
  shows "find_longest_match a b 0 (length a) 0 (length b) = (0, 0, 0)"
proof -
  have "\<forall>i \<in> set [0..<length a]. b2j b (a ! i) = []"
    using assms by (auto intro!: b2j_empty dest: nth_mem simp: disjoint_iff)
  then have o: "fst (outer_loop a b 0 (length b) [0..<length a] ((0, 0, 0), Map.empty)) = (0, 0, 0)"
    by (rule outer_loop_no_match)
  have r: "extend_right a b (length a) (length b) False (0, 0, 0) = (0, 0, 0)"
  proof (rule extend_right_no_match, intro impI)
    assume "0 + 0 < length a \<and> 0 + 0 < length b"
    then have "a ! 0 \<in> set a" "b ! 0 \<in> set b" by simp_all
    with assms show "a ! (0 + 0) \<noteq> b ! (0 + 0)" by auto
  qed
  show ?thesis
    by (simp add: find_longest_match_def Let_def o extend_left_at_lo r extend_left_junk
        extend_right_junk)
qed

lemma ratio_disjoint:
  assumes "set a \<inter> set b = {}" "a \<noteq> [] \<or> b \<noteq> []"
  shows "ratio a b = 0"
proof -
  have "queue_step a b (0, length a, 0, length b) = ([], [])"
    by (simp add: queue_step_def find_longest_match_disjoint[OF assms(1)])
  then have "match_loop a b [(0, length a, 0, length b)] [] = []" by simp
  then show ?thesis using assms(2) by (simp add: ratio_matched calculate_ratio_def)
qed

subsection \<open>A text against itself\<close>

text \<open>
  \<open>run a i\<close> is the number of consecutive positions up to \<open>i\<close> whose characters are not
  popular, the length \<open>find_longest_match\<close> records for the diagonal cell \<open>(i, i)\<close>. No
  cell off the diagonal records a longer run than the diagonal cells of its row and
  column, and the best match is replaced only by a strictly longer one, so after the loops
  it lies on the diagonal. The two \<open>while\<close> loops then extend it to the whole text, also
  over the popular characters that \<open>b2j\<close> has dropped.
\<close>

fun run :: "'a list \<Rightarrow> nat \<Rightarrow> nat" where
  "run a 0 = (if popular a (a ! 0) then 0 else 1)"
| "run a (Suc i) = (if popular a (a ! Suc i) then 0 else run a i + 1)"

definition prev_run :: "'a list \<Rightarrow> nat \<Rightarrow> nat" where
  "prev_run a i = (case i of 0 \<Rightarrow> 0 | Suc i' \<Rightarrow> run a i')"

lemma run_prev: "run a i = (if popular a (a ! i) then 0 else prev_run a i + 1)"
  by (cases i) (simp_all add: prev_run_def)

lemma prev_run_Suc [simp]: "prev_run a (Suc i) = run a i"
  by (simp add: prev_run_def)

definition diag_j2len :: "'a list \<Rightarrow> nat \<Rightarrow> (nat \<rightharpoonup> nat) \<Rightarrow> bool" where
  "diag_j2len a i j2len =
     ((\<forall>j k. j2len j = Some k \<longrightarrow> k \<le> run a j \<and> k \<le> prev_run a i) \<and>
      j2lenget j2len i = prev_run a i)"

lemma j2lenget_diag:
  assumes "diag_j2len a i j2len"
  shows "j2lenget j2len j \<le> prev_run a j \<and> j2lenget j2len j \<le> prev_run a i"
  using assms
  by (auto simp: diag_j2len_def j2lenget_def prev_run_def split: nat.splits option.splits)

definition diag_state ::
  "'a list \<Rightarrow> nat \<Rightarrow> nat list \<Rightarrow> match \<Rightarrow> (nat \<rightharpoonup> nat) \<Rightarrow> bool"
where
  "diag_state a i js best new =
     (fst best = fst (snd best) \<and> (\<forall>i' < i. run a i' \<le> snd (snd best)) \<and>
      (\<forall>j k. new j = Some k \<longrightarrow> k \<le> run a j \<and> k \<le> run a i) \<and>
      (i \<notin> set js \<longrightarrow>
         run a i \<le> snd (snd best) \<and> (case new i of None \<Rightarrow> 0 | Some k \<Rightarrow> k) = run a i))"

lemma inner_loop_diag:
  assumes d: "diag_j2len a i j2len"
  shows "sorted js \<Longrightarrow> distinct js \<Longrightarrow>
         \<forall>j \<in> set js. j < length a \<and> a ! j = a ! i \<and> \<not> popular a (a ! i) \<Longrightarrow>
         diag_state a i js best new \<Longrightarrow>
         diag_state a i [] (fst (inner_loop i 0 (length a) j2len js (best, new)))
           (snd (inner_loop i 0 (length a) j2len js (best, new)))"
proof (induction js arbitrary: best new)
  case Nil
  then show ?case by simp
next
  case (Cons j js)
  obtain bi bj bk where best: "best = (bi, bj, bk)" by (cases best) auto
  define k where "k = j2lenget j2len j + 1"
  define best' where "best' = (if bk < k then (Suc i - k, Suc j - k, k) else best)"
  have j: "j < length a" "a ! j = a ! i" "\<not> popular a (a ! i)" using Cons.prems(3) by auto
  have step: "inner_loop i 0 (length a) j2len (j # js) (best, new) =
              inner_loop i 0 (length a) j2len js (best', new(j \<mapsto> k))"
    using j(1) by (simp add: k_def best'_def best Let_def)
  have rj: "run a j = prev_run a j + 1" using j by (simp add: run_prev[of a j])
  have ri: "run a i = prev_run a i + 1" using j by (simp add: run_prev[of a i])
  have kj: "k \<le> run a j" and ki: "k \<le> run a i"
    using j2lenget_diag[OF d, of j] by (simp_all add: k_def rj ri)
  have kii: "j = i \<Longrightarrow> k = run a i"
    using d by (simp add: k_def ri diag_j2len_def)
  have st: "fst best = fst (snd best)" "\<forall>i' < i. run a i' \<le> bk"
    "\<forall>j k. new j = Some k \<longrightarrow> k \<le> run a j \<and> k \<le> run a i"
    "i \<notin> set (j # js) \<longrightarrow> run a i \<le> bk \<and> (case new i of None \<Rightarrow> 0 | Some k \<Rightarrow> k) = run a i"
    using Cons.prems(4) by (simp_all add: diag_state_def best)
  have gt: "i < j \<Longrightarrow> i \<notin> set (j # js)" using Cons.prems(1) by auto
  have upd: "bk < k \<Longrightarrow> j = i"
  proof (rule ccontr)
    assume a: "bk < k" "j \<noteq> i"
    show False
    proof (cases "j < i")
      case True
      with st(2) have "run a j \<le> bk" by simp
      with kj a(1) show False by simp
    next
      case False
      with a(2) have "i < j" by simp
      from gt[OF this] st(4) have "run a i \<le> bk" by simp
      with ki a(1) show False by simp
    qed
  qed
  have bk': "snd (snd best') = max bk k" by (simp add: best'_def best max_def)
  have s1: "fst best' = fst (snd best')" using upd st(1) by (auto simp: best'_def)
  have s2: "\<forall>i' < i. run a i' \<le> snd (snd best')" using st(2) by (auto simp: bk')
  have s3: "\<forall>j' k'. (new(j \<mapsto> k)) j' = Some k' \<longrightarrow> k' \<le> run a j' \<and> k' \<le> run a i"
    using st(3) kj ki by auto
  have s4: "i \<notin> set js \<longrightarrow> run a i \<le> snd (snd best') \<and>
            (case (new(j \<mapsto> k)) i of None \<Rightarrow> 0 | Some k \<Rightarrow> k) = run a i"
  proof (cases "j = i")
    case True
    then show ?thesis using kii by (simp add: bk')
  next
    case False
    then show ?thesis using st(4) by (auto simp: bk')
  qed
  have ds: "diag_state a i js best' (new(j \<mapsto> k))"
    using s1 s2 s3 s4 unfolding diag_state_def by blast
  have p: "sorted js" "distinct js"
    "\<forall>j \<in> set js. j < length a \<and> a ! j = a ! i \<and> \<not> popular a (a ! i)"
    using Cons.prems(1,2,3) by auto
  show ?case unfolding step by (rule Cons.IH[OF p ds])
qed


lemma b2j_diag:
  "sorted (b2j a (a ! i)) \<and> distinct (b2j a (a ! i)) \<and>
   (\<forall>j \<in> set (b2j a (a ! i)). j < length a \<and> a ! j = a ! i \<and> \<not> popular a (a ! i))"
  by (auto simp: b2j_def indices_def sorted_wrt_filter)

lemma b2j_self:
  "i < length a \<Longrightarrow> i \<notin> set (b2j a (a ! i)) \<Longrightarrow> run a i = 0"
  by (cases "popular a (a ! i)") (auto simp: b2j_def indices_def run_prev[of a i])

lemma outer_loop_diag:
  "diag_j2len a lo j2len \<Longrightarrow> fst best = fst (snd best) \<Longrightarrow>
   \<forall>i' < lo. run a i' \<le> snd (snd best) \<Longrightarrow>
   fst (fst (outer_loop a a 0 (length a) [lo..<length a] (best, j2len))) =
   fst (snd (fst (outer_loop a a 0 (length a) [lo..<length a] (best, j2len))))"
proof (induction "length a - lo" arbitrary: lo best j2len)
  case 0
  then show ?case by simp
next
  case (Suc n)
  then have lo: "lo < length a" by simp
  let ?js = "b2j a (a ! lo)"
  let ?st = "inner_loop lo 0 (length a) j2len ?js (best, Map.empty)"
  have init: "diag_state a lo ?js best Map.empty"
    using Suc.prems(2,3) b2j_self[OF lo] by (simp add: diag_state_def)
  have p: "sorted ?js" "distinct ?js"
    "\<forall>j \<in> set ?js. j < length a \<and> a ! j = a ! lo \<and> \<not> popular a (a ! lo)"
    using b2j_diag[of a lo] by simp_all
  have ds: "diag_state a lo [] (fst ?st) (snd ?st)"
    by (rule inner_loop_diag[OF Suc.prems(1) p init])
  have d': "diag_j2len a (Suc lo) (snd ?st)"
    using ds by (auto simp: diag_state_def diag_j2len_def j2lenget_def)
  have b': "fst (fst ?st) = fst (snd (fst ?st))" using ds by (simp add: diag_state_def)
  have r': "\<forall>i' < Suc lo. run a i' \<le> snd (snd (fst ?st))"
    using ds by (auto simp: diag_state_def less_Suc_eq)
  have n: "n = length a - Suc lo" using Suc.hyps(2) by simp
  have e: "outer_loop a a 0 (length a) [lo..<length a] (best, j2len) =
           outer_loop a a 0 (length a) [Suc lo..<length a] (fst ?st, snd ?st)"
    using lo by (simp add: upt_conv_Cons)
  show ?case unfolding e by (rule Suc.hyps(1)[OF n d' b' r'])
qed

lemma extend_left_self:
  "extend_left a a 0 0 False (d, d, k) = (0, 0, d + k)"
proof (induction d arbitrary: k)
  case 0
  show ?case by (subst extend_left.simps) simp
next
  case (Suc d)
  have "extend_left a a 0 0 False (Suc d, Suc d, k) = extend_left a a 0 0 False (d, d, k + 1)"
    by (subst extend_left.simps) (simp add: isbjunk_def)
  then show ?case using Suc[of "k + 1"] by simp
qed

lemma extend_right_self:
  "m \<le> n \<Longrightarrow> extend_right a a n n False (0, 0, m) = (0, 0, n)"
proof (induction "n - m" arbitrary: m)
  case 0
  then have "m = n" by simp
  then show ?case by (subst extend_right.simps) simp
next
  case (Suc x)
  then have lt: "m < n" by simp
  have "extend_right a a n n False (0, 0, m) = extend_right a a n n False (0, 0, m + 1)"
    using lt by (subst extend_right.simps) (simp add: isbjunk_def)
  moreover have "extend_right a a n n False (0, 0, m + 1) = (0, 0, n)"
    using Suc.hyps(2) lt by (intro Suc.hyps(1)) simp_all
  ultimately show ?case by simp
qed

lemma find_longest_match_self:
  "find_longest_match a a 0 (length a) 0 (length a) = (0, 0, length a)"
proof -
  let ?n = "length a"
  let ?best = "fst (outer_loop a a 0 ?n [0..<?n] ((0, 0, 0), Map.empty))"
  obtain d e k where b: "?best = (d, e, k)" by (cases ?best) auto
  have "diag_j2len a 0 Map.empty" by (simp add: diag_j2len_def j2lenget_def prev_run_def)
  then have "fst ?best = fst (snd ?best)" by (intro outer_loop_diag) simp_all
  then have de: "e = d" by (simp add: b)
  have "bounded 0 ?n 0 ?n (0, 0, 0)" by (simp add: bounded_def)
  moreover have "j2len_ok 0 0 0 Map.empty" by (simp add: j2len_ok_def)
  ultimately have "bounded 0 ?n 0 ?n ?best" by (intro outer_loop_bounded) simp_all
  then have dk: "d + k \<le> ?n" by (auto simp: b bounded_def)
  show ?thesis
    unfolding find_longest_match_def Let_def b de
    by (simp add: extend_left_self extend_right_self[OF dk] extend_left_junk extend_right_junk)
qed

lemma ratio_self: "ratio a a = 1"
proof (cases "a = []")
  case True
  have "find_longest_match ([] :: 'a list) [] 0 0 0 0 = (0, 0, 0)"
    using find_longest_match_self[of "[] :: 'a list"] by simp
  then have "queue_step a a (0, length a, 0, length a) = ([], [])"
    using True by (simp add: queue_step_def)
  then have "match_loop a a [(0, length a, 0, length a)] [] = []" by simp
  then show ?thesis using True by (simp add: ratio_matched calculate_ratio_def)
next
  case False
  have "queue_step a a (0, length a, 0, length a) = ([], [(0, 0, length a)])"
    using False by (simp add: queue_step_def find_longest_match_self)
  then have "match_loop a a [(0, length a, 0, length a)] [] = [(0, 0, length a)]" by simp
  then show ?thesis using False by (simp add: ratio_matched calculate_ratio_def)
qed

lemma disjoint_mset_iff: "mset a \<inter># mset b = {#} \<longleftrightarrow> set a \<inter> set b = {}"
  by (metis set_mset_inter set_mset_eq_empty_iff set_mset_mset)

text \<open>
  The ratio depends on the order of its arguments, and two empty texts, which have no
  character in common, have ratio 1.
\<close>

theorem ratio_not_symmetric:
  "ratio ''tide'' ''diet'' = 1 / 4 \<and> ratio ''diet'' ''tide'' = 1 / 2 \<and>
   ratio ''diet'' ''tide'' \<noteq> ratio ''tide'' ''diet'' \<and>
   mset ([] :: string) \<inter># mset ([] :: string) = {#} \<and> ratio ([] :: string) [] = 1"
proof -
  have 1: "ratio ''tide'' ''diet'' = 1 / 4" by code_simp
  have 2: "ratio ''diet'' ''tide'' = 1 / 2" by code_simp
  have 3: "ratio ([] :: string) [] = 1" by code_simp
  show ?thesis unfolding 1 2 3 by simp
qed

text \<open>
  Claim C3. For all texts \<open>a\<close> and \<open>b\<close>: the ratio of \<open>a\<close> against itself is 1; the ratio
  of \<open>a\<close> against \<open>b\<close> is between 0 and 1; and when the multisets of characters of \<open>a\<close> and
  \<open>b\<close> are disjoint and the texts are not both empty, the ratio is 0 in both orders.
  The ratio is not symmetric: there are two texts whose ratios in the two orders are
  1/4 and 1/2.
\<close>

theorem ratio_properties:
  "ratio a a = 1 \<and> 0 \<le> ratio a b \<and> ratio a b \<le> 1 \<and>
   (mset a \<inter># mset b = {#} \<and> (a \<noteq> [] \<or> b \<noteq> []) \<longrightarrow> ratio a b = 0 \<and> ratio b a = 0)"
proof (intro conjI impI)
  show "ratio a a = 1" by (rule ratio_self)
  show "0 \<le> ratio a b" "ratio a b \<le> 1" using ratio_range[of a b] by simp_all
next
  assume h: "mset a \<inter># mset b = {#} \<and> (a \<noteq> [] \<or> b \<noteq> [])"
  then have d: "set a \<inter> set b = {}" by (simp add: disjoint_mset_iff)
  show "ratio a b = 0" using h by (intro ratio_disjoint[OF d]) simp
  have d': "set b \<inter> set a = {}" using d by auto
  show "ratio b a = 0" using h by (intro ratio_disjoint[OF d']) auto
qed

theorem ratio_properties_witness:
  "ratio ''flood'' ''flood'' = 1 \<and> mset ''flood'' \<inter># mset ''strike'' = {#} \<and>
   ratio ''flood'' ''strike'' = 0 \<and> ratio ''strike'' ''flood'' = 0"
proof -
  have d: "mset ''flood'' \<inter># mset ''strike'' = {#}" by (simp add: disjoint_mset_iff)
  show ?thesis using ratio_properties[of "''flood''" "''strike''"] d by simp
qed

section \<open>Deduplication\<close>

lemma hash_exists_iff: "hash_exists db h \<longleftrightarrow> h \<in> row_hash ` set db"
  by (induction db) (auto simp: hash_exists_def)

lemma near_duplicate_iff: "near_duplicate t xs \<longleftrightarrow> (\<exists>x \<in> set xs. 9 / 10 < ratio t x)"
  by (induction xs) auto

lemma is_duplicate_iff:
  "is_duplicate sha256 db t \<longleftrightarrow>
     sha256 t \<in> row_hash ` set db \<or> (\<exists>x \<in> set db. 9 / 10 < ratio t (row_text x))"
  by (auto simp: is_duplicate_def hash_exists_iff near_duplicate_iff Let_def)

lemma validate_and_store_reject:
  assumes "t = (case text' r of None \<Rightarrow> [] | Some x \<Rightarrow> x)"
    and "length t < 5 \<or> is_duplicate sha256 db t"
  shows "validate_and_store sha256 db r = (Inr False, db)"
  using assms by (auto simp: validate_and_store_def Let_def)

lemma validate_and_store_accept:
  assumes "t = (case text' r of None \<Rightarrow> [] | Some x \<Rightarrow> x)"
    and "\<not> length t < 5" "\<not> is_duplicate sha256 db t"
    and "source r = Some src" "received_at r = Some ra"
    and "m = (case meta r of None \<Rightarrow> [] | Some x \<Rightarrow> x)" "encodable (PyDict m)"
  shows "validate_and_store sha256 db r =
           (Inr True,
            db @ [\<lparr>row_source = src, row_text = t, row_hash = sha256 t, row_received_at = ra,
                   row_meta = m\<rparr>])"
proof -
  have "\<not> hash_exists db (sha256 t)"
    using assms(3) by (simp add: is_duplicate_iff hash_exists_iff)
  then show ?thesis
    using assms by (simp add: validate_and_store_def Let_def insert_event_def json_dumps_def)
qed

lemma validate_and_store_type_error:
  assumes "t = (case text' r of None \<Rightarrow> [] | Some x \<Rightarrow> x)"
    and "\<not> length t < 5" "\<not> is_duplicate sha256 db t"
    and "source r = Some src" "received_at r = Some ra"
    and "m = (case meta r of None \<Rightarrow> [] | Some x \<Rightarrow> x)" "\<not> encodable (PyDict m)"
  shows "validate_and_store sha256 db r = (Inl TypeError, db)"
  using assms by (simp add: validate_and_store_def Let_def json_dumps_def)




section \<open>The pipeline and its store\<close>

text \<open>
  What a call of \<open>process_event\<close> does, stage by stage: a keyword named as a parameter
  raises \<open>TypeError\<close> at the call; a text that is too short or a duplicate is rejected;
  metadata that \<open>json.dumps\<close> cannot encode raises \<open>TypeError\<close> in \<open>validate_and_store\<close>;
  otherwise the event is stored, classified and enriched.
\<close>

lemma process_event_result:
  "process_event sha256 db now src t kwargs =
     (if keyword_clash [''self'', ''source'', ''text''] kwargs then (Inl TypeError, db)
      else if length (strip (lower (strip t))) < 5 \<or>
              is_duplicate sha256 db (strip (lower (strip t)))
      then (Inr (Rejected ''duplicate_or_invalid''), db)
      else if \<not> encodable (PyDict kwargs) then (Inl TypeError, db)
      else
        (Inr (Processed
           \<lparr>source = Some src, text' = Some (strip (lower (strip t))), received_at = Some now,
            meta = Some kwargs,
            category = Some (classify_loop CATEGORIES (strip (lower (strip t))) ''UNCLASSIFIED''),
            entities = Some \<lparr>location = ''unknown'', timestamp = now, actors = []\<rparr>\<rparr>),
         db @ [\<lparr>row_source = src, row_text = strip (lower (strip t)),
                row_hash = sha256 (strip (lower (strip t))), row_received_at = now,
                row_meta = kwargs\<rparr>]))"
proof (cases "keyword_clash [''self'', ''source'', ''text''] kwargs")
  case True
  then show ?thesis by (simp add: process_event_def bind_kwargs_def)
next
  case nc: False
  let ?t = "strip (lower (strip t))"
  let ?ev = "\<lparr>source = Some src, text' = Some ?t, received_at = Some now,
              meta = Some kwargs, category = None, entities = None\<rparr>"
  have n: "normalize (ingest now src t kwargs) = Inr ?ev"
    by (simp add: normalize_def ingest_def)
  have p: "process_event sha256 db now src t kwargs =
      (case validate_and_store sha256 db ?ev of
         (Inl e, db') \<Rightarrow> (Inl e, db')
       | (Inr False, db') \<Rightarrow> (Inr (Rejected ''duplicate_or_invalid''), db')
       | (Inr True, db') \<Rightarrow>
           (case classify ?ev of
              Inl e \<Rightarrow> (Inl e, db')
            | Inr ev' \<Rightarrow>
                (case enrich ev' of
                   Inl e \<Rightarrow> (Inl e, db')
                 | Inr ev'' \<Rightarrow> (Inr (Processed ev''), db'))))"
    using nc by (simp add: process_event_def bind_kwargs_def n)
  have t: "?t = (case text' ?ev of None \<Rightarrow> [] | Some x \<Rightarrow> x)" by simp
  have m: "kwargs = (case meta ?ev of None \<Rightarrow> [] | Some x \<Rightarrow> x)" by simp
  show ?thesis
  proof (cases "length ?t < 5 \<or> is_duplicate sha256 db ?t")
    case True
    from validate_and_store_reject[OF t True]
    show ?thesis using True nc by (simp add: p)
  next
    case False
    then have f: "\<not> length ?t < 5" "\<not> is_duplicate sha256 db ?t" by auto
    show ?thesis
    proof (cases "encodable (PyDict kwargs)")
      case True
      have "validate_and_store sha256 db ?ev =
              (Inr True, db @ [\<lparr>row_source = src, row_text = ?t, row_hash = sha256 ?t,
                                row_received_at = now, row_meta = kwargs\<rparr>])"
        using validate_and_store_accept[OF t f _ _ m True, of src now] by simp
      then show ?thesis
        using False nc True by (simp add: p classify_def enrich_def)
    next
      case ne: False
      have "validate_and_store sha256 db ?ev = (Inl TypeError, db)"
        using validate_and_store_type_error[OF t f _ _ m ne, of src now] by simp
      then show ?thesis
        using False nc ne by (simp add: p)
    qed
  qed
qed








lemma validate_and_store_grows:
  "prefix db (snd (validate_and_store sha256 db r)) \<and>
   (distinct (map row_hash db) \<longrightarrow> distinct (map row_hash (snd (validate_and_store sha256 db r))))"
  by (auto simp: validate_and_store_def Let_def insert_event_def hash_exists_iff json_dumps_def
      split: option.splits)

lemma process_event_grows:
  "prefix db (snd (process_event sha256 db now src t kwargs)) \<and>
   (distinct (map row_hash db) \<longrightarrow>
      distinct (map row_hash (snd (process_event sha256 db now src t kwargs))))"
  by (auto simp: process_event_result is_duplicate_iff)

lemma run_operation_grows:
  "prefix db (run_operation sha256 db operation) \<and>
   (distinct (map row_hash db) \<longrightarrow> distinct (map row_hash (run_operation sha256 db operation)))"
  by (cases operation) (simp_all add: validate_and_store_grows process_event_grows)

text \<open>
  Claim C5. For every sequence of operations, the store before is a prefix of the store
  after, so no row is removed or changed; if no two rows of the store share a hash before,
  none do after; and a store built from the empty one never holds two rows with one hash.
\<close>

theorem store_grows_hashes_unique:
  "prefix db (run_operations sha256 db operations) \<and>
   (distinct (map row_hash db) \<longrightarrow>
      distinct (map row_hash (run_operations sha256 db operations))) \<and>
   distinct (map row_hash (run_operations sha256 [] operations))"
proof -
  have g: "prefix db (run_operations sha256 db operations) \<and>
   (distinct (map row_hash db) \<longrightarrow>
      distinct (map row_hash (run_operations sha256 db operations)))" for db
  proof (induction operations arbitrary: db)
    case Nil
    show ?case by simp
  next
    case (Cons operation rest)
    from run_operation_grows[of db sha256 operation] Cons[of "run_operation sha256 db operation"]
    show ?case by (auto intro: prefix_order.trans)
  qed
  from g[of db] g[of "[]"] show ?thesis by simp
qed


theorem store_grows_hashes_unique_witness:
  "run_operations (\<lambda>s. s) []
     [Process_event ''t1'' ''SENSOR'' ''Power outage'' [], Analyze_all,
      Process_event ''t2'' ''API'' ''power outage'' [], Init_db,
      Process_event ''t3'' ''NEWS'' ''Protest'' []] =
     [\<lparr>row_source = ''SENSOR'', row_text = ''power outage'', row_hash = ''power outage'',
       row_received_at = ''t1'', row_meta = []\<rparr>,
      \<lparr>row_source = ''NEWS'', row_text = ''protest'', row_hash = ''protest'',
       row_received_at = ''t3'', row_meta = []\<rparr>] \<and>
   distinct (map row_hash
     [\<lparr>row_source = ''SENSOR'', row_text = ''power outage'', row_hash = ''power outage'',
       row_received_at = ''t1'', row_meta = []\<rparr>,
      \<lparr>row_source = ''NEWS'', row_text = ''protest'', row_hash = ''protest'',
       row_received_at = ''t3'', row_meta = []\<rparr>])"
proof -
  let ?ops = "[Process_event ''t1'' ''SENSOR'' ''Power outage'' [], Analyze_all,
      Process_event ''t2'' ''API'' ''power outage'' [], Init_db,
      Process_event ''t3'' ''NEWS'' ''Protest'' []]"
  have e: "run_operations (\<lambda>s. s) [] ?ops =
     [\<lparr>row_source = ''SENSOR'', row_text = ''power outage'', row_hash = ''power outage'',
       row_received_at = ''t1'', row_meta = []\<rparr>,
      \<lparr>row_source = ''NEWS'', row_text = ''protest'', row_hash = ''protest'',
       row_received_at = ''t3'', row_meta = []\<rparr>]"
    by code_simp
  from store_grows_hashes_unique[of "[]" "\<lambda>s. s" ?ops]
  have "distinct (map row_hash (run_operations (\<lambda>s. s) [] ?ops))" by blast
  then show ?thesis unfolding e using e by simp
qed

section \<open>The endpoint and the classification service\<close>

lemma json_get_fallback:
  "json_get (JObj [(''category'', JStr ''UNCLASSIFIED''), (''confidence'', JNum 0)]) ''category'' =
     Inr (JStr ''UNCLASSIFIED'')"
  by (simp add: json_get_def)

lemma save_event_new:
  assumes "\<not> check_duplicate sha256 db t" "api_hash r = make_hash sha256 t"
  shows "save_event r db =
           (Inr (next_id db),
            db\<lparr>api_rows := api_rows db @ [r\<lparr>api_id := next_id db\<rparr>], next_id := next_id db + 1\<rparr>)"
  using assms by (simp add: save_event_def check_duplicate_def Let_def)

text \<open>
  When the classification service cannot be reached, or its body is not JSON, the
  \<open>except\<close> branch of the handler takes over: the event is stored with the category
  \<open>UNCLASSIFIED\<close> and the confidence 0 in its provenance, and the caller gets
  \<open>accepted\<close>.
\<close>

lemma api_ingest_fallback:
  assumes "5 \<le> length (strip (payload_text p))"
    and "\<not> check_duplicate sha256 db (strip (payload_text p))"
    and "reply = Unreachable \<or> reply = Not_json"
  shows "api_ingest sha256 db host now1 now2 reply p =
     (Inr (Accepted (next_id db) (JStr ''UNCLASSIFIED'')),
      db\<lparr>api_rows := api_rows db @
           [\<lparr>api_id = next_id db, api_source = payload_source p,
             api_text = strip (payload_text p), api_received_at = now2,
             api_hash = make_hash sha256 (strip (payload_text p)),
             api_meta = payload_meta p, api_category = JStr ''UNCLASSIFIED'',
             api_provenance =
               \<lparr>ingested_by = ''api'', ingested_at = now1, client = host,
                ml = JObj [(''category'', JStr ''UNCLASSIFIED''), (''confidence'', JNum 0)]\<rparr>\<rparr>],
         next_id := next_id db + 1\<rparr>)"
proof -
  let ?t = "strip (payload_text p)"
  let ?fb = "JObj [(''category'', JStr ''UNCLASSIFIED''), (''confidence'', JNum 0)]"
  let ?r = "\<lparr>api_id = 0, api_source = payload_source p, api_text = ?t,
             api_received_at = now2, api_hash = make_hash sha256 ?t,
             api_meta = payload_meta p, api_category = JStr ''UNCLASSIFIED'',
             api_provenance = \<lparr>ingested_by = ''api'', ingested_at = now1, client = host, ml = ?fb\<rparr>\<rparr>"
  have m: "(case reply of Reply v \<Rightarrow> v | _ \<Rightarrow> ?fb) = ?fb" using assms(3) by auto
  have s: "save_event ?r db =
      (Inr (next_id db),
       db\<lparr>api_rows := api_rows db @ [?r\<lparr>api_id := next_id db\<rparr>], next_id := next_id db + 1\<rparr>)"
    by (rule save_event_new[OF assms(2)]) simp
  show ?thesis
    using assms(1,2) by (simp add: api_ingest_def Let_def m json_get_fallback s)
qed

text \<open>
  Claim C7. The claim is that a malformed response of the classification service never
  reaches the caller as an error and that the event is still stored with the category
  \<open>UNCLASSIFIED\<close>. The handler misses the responses whose body is JSON but no object (an
  array, a string, a number, \<open>null\<close>): \<open>r.json()\<close> returns the value inside the \<open>try\<close>,
  and \<open>ml_out.get("category")\<close>, outside it, raises \<open>AttributeError\<close>. For every event
  that passed the length and duplicate checks the exception reaches the caller and the
  store is left as it was.
\<close>

theorem api_ingest_attribute_error:
  assumes "5 \<le> length (strip (payload_text p))"
    and "\<not> check_duplicate sha256 db (strip (payload_text p))"
    and "\<forall>items. v \<noteq> JObj items"
  shows "api_ingest sha256 db host now1 now2 (Reply v) p = (Inl AttributeError, db)"
proof -
  have "json_get v ''category'' = Inl AttributeError"
    using assms(3) by (cases v) (simp_all add: json_get_def)
  then show ?thesis using assms(1,2) by (simp add: api_ingest_def Let_def)
qed

theorem api_ingest_attribute_error_witness:
  "api_ingest (\<lambda>s. s) \<lparr>api_rows = [], next_id = 1\<rparr> ''10.0.0.1'' ''t1'' ''t2'' (Reply (JArr []))
     \<lparr>payload_source = ''OSINT'', payload_text = ''Power outage'', payload_meta = Some []\<rparr> =
     (Inl AttributeError, \<lparr>api_rows = [], next_id = 1\<rparr>)"
proof -
  let ?p = "\<lparr>payload_source = ''OSINT'', payload_text = ''Power outage'', payload_meta = Some []\<rparr>"
  let ?db = "\<lparr>api_rows = [], next_id = 1\<rparr>"
  have l: "5 \<le> length (strip (payload_text ?p))" by code_simp
  have d: "\<not> check_duplicate (\<lambda>s. s) ?db (strip (payload_text ?p))"
    by (simp add: check_duplicate_def)
  have v: "\<forall>items. JArr [] \<noteq> JObj items" by simp
  show ?thesis by (rule api_ingest_attribute_error[OF l d v])
qed

text \<open>
  A reply that is an object without the key \<open>category\<close> is accepted with the category
  \<open>None\<close>, not \<open>UNCLASSIFIED\<close>.
\<close>

lemma api_ingest_missing_category:
  assumes "5 \<le> length (strip (payload_text p))"
    and "\<not> check_duplicate sha256 db (strip (payload_text p))"
  shows "fst (api_ingest sha256 db host now1 now2 (Reply (JObj [])) p) =
           Inr (Accepted (next_id db) JNull)"
proof -
  let ?t = "strip (payload_text p)"
  let ?r = "\<lparr>api_id = 0, api_source = payload_source p, api_text = ?t,
             api_received_at = now2, api_hash = make_hash sha256 ?t,
             api_meta = payload_meta p, api_category = JNull,
             api_provenance = \<lparr>ingested_by = ''api'', ingested_at = now1, client = host, ml = JObj []\<rparr>\<rparr>"
  have s: "save_event ?r db =
      (Inr (next_id db),
       db\<lparr>api_rows := api_rows db @ [?r\<lparr>api_id := next_id db\<rparr>], next_id := next_id db + 1\<rparr>)"
    by (rule save_event_new[OF assms(2)]) simp
  show ?thesis
    using assms by (simp add: api_ingest_def Let_def json_get_def s)
qed

end
